theory Spec2Isabelle
  imports Main "HOL-Library.Char_ord" "HOL-Library.List_Lexorder" "HOL-Library.Product_Lexorder"
    "HOL-Library.Multiset"
begin

section \<open>The lexer of lark (lark/lexer.py)\<close>

text \<open>
  A shallow embedding of \<^verbatim>\<open>lark/lexer.py\<close>. Python strings are \<open>string\<close>, offsets,
  lines and columns are \<open>nat\<close>, priorities and pattern widths are \<open>int\<close>. Exceptions are
  values of the type \<open>error\<close>; a construction that may loop forever returns \<open>None\<close>.
\<close>

subsection \<open>The host regular-expression engine\<close>

text \<open>
  The module \<^verbatim>\<open>re\<close> is not part of the repository; it is a parameter of the model.
  An engine says, for the source text of one regular expression: whether it parses, how
  many capture groups it has, and what \<^verbatim>\<open>re.match(source, subject, pos)\<close> matches,
  as the length of \<^verbatim>\<open>m.group(0)\<close>. \<open>re_maxgroups\<close> is the ceiling on the number of
  capture groups of one compiled pattern (99 explicit groups in the Python versions whose
  \<^verbatim>\<open>sre_compile\<close> asserts \<^verbatim>\<open>groups <= 100\<close>, group 0 included).
\<close>

record engine =
  re_syntax_ok :: "string \<Rightarrow> bool"
  re_groups :: "string \<Rightarrow> nat"
  re_maxgroups :: nat
  re_match :: "string \<Rightarrow> string \<Rightarrow> nat \<Rightarrow> nat option"

datatype error =
    LexError_cannot_compile string
  | LexError_zero_width string
  | AssertionError
  | ReError
  | KeyError

text \<open>
  \<^verbatim>\<open>m.group(0)\<close> of a match of length \<open>n\<close> at \<open>pos\<close> is the slice
  \<^verbatim>\<open>stream[pos:pos+n]\<close>.
\<close>

definition group0 :: "string \<Rightarrow> nat \<Rightarrow> nat \<Rightarrow> string" where
  "group0 stream pos n = take n (drop pos stream)"

text \<open>
  \<^verbatim>\<open>re.compile(source)\<close> of one source, as the sanitization step of the Lexer calls it.
\<close>

definition re_compile_one :: "engine \<Rightarrow> string \<Rightarrow> error option" where
  "re_compile_one e r =
     (if \<not> re_syntax_ok e r then Some ReError
      else if re_maxgroups e < re_groups e r then Some AssertionError
      else None)"

text \<open>
  A compiled pattern \<^verbatim>\<open>(?P<n1>r1)|(?P<n2>r2)|...\<close> is the list of its named
  alternatives \<open>(n, r)\<close>, in order. Compiling fails with \<^verbatim>\<open>re.error\<close> on a source that does
  not parse or on a repeated group name, and with \<^verbatim>\<open>AssertionError\<close> when the pattern
  has more capture groups than the ceiling; each alternative counts its own named group
  and the groups inside its source.
\<close>

type_synonym mre = "(string \<times> string) list"

datatype compiled = Compiled mre | CompileAssertionError | CompileReError

definition count_groups :: "engine \<Rightarrow> mre \<Rightarrow> nat" where
  "count_groups e alts = sum_list (map (\<lambda>(n, r). Suc (re_groups e r)) alts)"

definition re_compile :: "engine \<Rightarrow> mre \<Rightarrow> compiled" where
  "re_compile e alts =
     (if \<not> list_all (\<lambda>(n, r). re_syntax_ok e r) alts \<or> \<not> distinct (map fst alts)
        then CompileReError
      else if re_maxgroups e < count_groups e alts then CompileAssertionError
      else Compiled alts)"

text \<open>
  \<^verbatim>\<open>mre.match(stream, pos)\<close>: a backtracking engine tries the alternatives from left to
  right, and the first one that matches gives \<^verbatim>\<open>m.group(0)\<close> and \<^verbatim>\<open>m.lastindex\<close>.
  The result is \<^verbatim>\<open>(m.group(0), type_from_index[m.lastindex])\<close>.
\<close>

fun mre_match :: "engine \<Rightarrow> mre \<Rightarrow> string \<Rightarrow> nat \<Rightarrow> (string \<times> string) option" where
  "mre_match e [] stream pos = None"
| "mre_match e ((n, r) # alts) stream pos =
     (case re_match e r stream pos of
        Some k \<Rightarrow> Some (group0 stream pos k, n)
      | None \<Rightarrow> mre_match e alts stream pos)"

subsection \<open>Patterns and token definitions (lark/common.py)\<close>

text \<open>
  \<^verbatim>\<open>common.py\<close> is not among the sources. A pattern carries what the lexer reads from it:
  its class, \<^verbatim>\<open>value\<close>, \<^verbatim>\<open>flags\<close>, and the results of \<^verbatim>\<open>to_regexp()\<close>,
  \<^verbatim>\<open>min_width\<close> and \<^verbatim>\<open>max_width\<close>. The flags are a set of symbolic flags, given as
  the list of its members.
\<close>

datatype pattern_class = PatternStr | PatternRE

record pattern =
  pclass :: pattern_class
  pvalue :: string
  flags :: "string list"
  to_regexp :: string
  min_width :: int
  max_width :: int

record tokendef =
  name :: string
  pattern :: pattern
  priority :: int

subsection \<open>Token\<close>

record token =
  ttype :: string
  tvalue :: string
  pos_in_stream :: "nat option"
  line :: "nat option"
  column :: "nat option"

definition Token :: "string \<Rightarrow> string \<Rightarrow> nat option \<Rightarrow> nat option \<Rightarrow> nat option \<Rightarrow> token" where
  "Token ty v p l c = \<lparr>ttype = ty, tvalue = v, pos_in_stream = p, line = l, column = c\<rparr>"

text \<open>
  The right operand of \<^verbatim>\<open>Token.__eq__\<close>: a plain string or a Token. A Token is a string
  whose characters are its \<^verbatim>\<open>value\<close>.
\<close>

datatype operand = PlainStr string | Tok token

fun Str_eq :: "token \<Rightarrow> operand \<Rightarrow> bool" where
  "Str_eq t (PlainStr s) = (tvalue t = s)"
| "Str_eq t (Tok u) = (tvalue t = tvalue u)"

fun isinstance_Token :: "operand \<Rightarrow> bool" where
  "isinstance_Token (PlainStr s) = False"
| "isinstance_Token (Tok u) = True"

fun operand_type :: "operand \<Rightarrow> string option" where
  "operand_type (PlainStr s) = None"
| "operand_type (Tok u) = Some (ttype u)"

definition Token_eq :: "token \<Rightarrow> operand \<Rightarrow> bool" where
  "Token_eq self other =
     (if isinstance_Token other \<and> Some (ttype self) \<noteq> operand_type other then False
      else Str_eq self other)"

subsection \<open>Newline heuristic\<close>

text \<open>\<^verbatim>\<open>sub in s\<close> on strings.\<close>

fun str_in :: "string \<Rightarrow> string \<Rightarrow> bool" where
  "str_in sub [] = (sub = [])"
| "str_in sub (c # cs) = (take (length sub) (c # cs) = sub \<or> str_in sub cs)"

definition newline_char :: char where
  "newline_char = CHR 0x0A"

definition backslash :: char where
  "backslash = CHR 0x5C"

definition regexp_has_newline :: "string \<Rightarrow> bool" where
  "regexp_has_newline r =
     (str_in [newline_char] r \<or> str_in [backslash, CHR ''n''] r
      \<or> (str_in ''(?s)'' r \<and> str_in ''.'' r))"

subsection \<open>The matcher compiler\<close>

text \<open>
  \<^verbatim>\<open>_build_mres(tokens, max_size, match_whole)\<close>. The function \<open>build_mres_loop\<close> is its
  \<^verbatim>\<open>while\<close> loop, with the loop variables \<^verbatim>\<open>tokens\<close> and \<^verbatim>\<open>mres\<close> as arguments.
  On \<^verbatim>\<open>AssertionError\<close> the source returns the result of a fresh call on the tokens
  that remain, with half the batch size: the fresh call starts from \<^verbatim>\<open>mres = []\<close>.
  Any other exception of \<^verbatim>\<open>re.compile\<close> is not caught. The result is \<open>None\<close> when the
  loop does not end.
\<close>

definition postfix :: "bool \<Rightarrow> string" where
  "postfix match_whole = (if match_whole then ''$'' else [])"

definition alternatives :: "bool \<Rightarrow> tokendef list \<Rightarrow> mre" where
  "alternatives match_whole tokens =
     map (\<lambda>t. (name t, to_regexp (pattern t) @ postfix match_whole)) tokens"

partial_function (option) build_mres_loop ::
  "engine \<Rightarrow> tokendef list \<Rightarrow> nat \<Rightarrow> bool \<Rightarrow> mre list \<Rightarrow> (error + mre list) option" where
  "build_mres_loop e tokens max_size match_whole mres =
     (if tokens = [] then Some (Inr mres)
      else case re_compile e (alternatives match_whole (take max_size tokens)) of
             CompileAssertionError \<Rightarrow> build_mres_loop e tokens (max_size div 2) match_whole []
           | CompileReError \<Rightarrow> Some (Inl ReError)
           | Compiled mre \<Rightarrow>
               build_mres_loop e (drop max_size tokens) max_size match_whole (mres @ [mre]))"

definition build_mres_from ::
  "engine \<Rightarrow> tokendef list \<Rightarrow> nat \<Rightarrow> bool \<Rightarrow> (error + mre list) option" where
  "build_mres_from e tokens max_size match_whole = build_mres_loop e tokens max_size match_whole []"

definition build_mres :: "engine \<Rightarrow> tokendef list \<Rightarrow> bool \<Rightarrow> (error + mre list) option" where
  "build_mres e tokens match_whole = build_mres_from e tokens (length tokens) match_whole"

text \<open>
  \<^verbatim>\<open>for mre, type_from_index in mres: m = mre.match(stream, pos); if m: ...; break\<close>:
  the first compiled pattern of the list that matches.
\<close>

fun first_match :: "engine \<Rightarrow> mre list \<Rightarrow> string \<Rightarrow> nat \<Rightarrow> (string \<times> string) option" where
  "first_match e [] stream pos = None"
| "first_match e (m # ms) stream pos =
     (case mre_match e m stream pos of
        Some r \<Rightarrow> Some r
      | None \<Rightarrow> first_match e ms stream pos)"

subsection \<open>The ambiguity resolver\<close>

text \<open>
  A callback made by \<^verbatim>\<open>_create_unless_callback(strs)\<close> is determined by the compiled
  patterns \<^verbatim>\<open>mres = build_mres(strs, match_whole=True)\<close>; \<open>unless_callback\<close> is its body.
\<close>

definition unless_callback :: "engine \<Rightarrow> mre list \<Rightarrow> token \<Rightarrow> token" where
  "unless_callback e mres t =
     (case first_match e mres (tvalue t) 0 of
        Some (v, ty) \<Rightarrow> t\<lparr>ttype := ty\<rparr>
      | None \<Rightarrow> t)"

text \<open>
  The inner loop of \<^verbatim>\<open>_create_unless\<close> for one regexp token: the string tokens whose
  value the regexp matches in whole, and those of them that are embedded. On the sets of
  flags \<^verbatim>\<open>strtok.pattern.flags <= retok.pattern.flags\<close> is the subset test.
\<close>

definition matches_whole :: "engine \<Rightarrow> tokendef \<Rightarrow> tokendef \<Rightarrow> bool" where
  "matches_whole e retok strtok =
     (case re_match e (to_regexp (pattern retok)) (pvalue (pattern strtok)) 0 of
        Some k \<Rightarrow> group0 (pvalue (pattern strtok)) 0 k = pvalue (pattern strtok)
      | None \<Rightarrow> False)"

definition unless_of :: "engine \<Rightarrow> tokendef list \<Rightarrow> tokendef \<Rightarrow> tokendef list" where
  "unless_of e strtoks retok = filter (matches_whole e retok) strtoks"

definition embedded_of :: "engine \<Rightarrow> tokendef list \<Rightarrow> tokendef \<Rightarrow> tokendef list" where
  "embedded_of e strtoks retok =
     filter (\<lambda>strtok. set (flags (pattern strtok)) \<subseteq> set (flags (pattern retok)))
       (unless_of e strtoks retok)"

text \<open>
  The outer loop over the regexp tokens, building the \<^verbatim>\<open>callback\<close> dictionary (from the
  name of a regexp token to the compiled patterns of its callback). The dictionary is an
  association list read with \<open>map_of\<close>; an assignment puts its pair in front, so that it
  replaces an older one for the same key. The assertion that the tokens have at most two
  pattern classes holds by the type \<open>pattern_class\<close>.
\<close>

type_synonym callbacks = "(string \<times> mre list) list"

fun create_callbacks ::
  "engine \<Rightarrow> tokendef list \<Rightarrow> tokendef list \<Rightarrow> callbacks \<Rightarrow> (error + callbacks) option" where
  "create_callbacks e strtoks [] callback = Some (Inr callback)"
| "create_callbacks e strtoks (retok # retoks) callback =
     (if unless_of e strtoks retok = [] then create_callbacks e strtoks retoks callback
      else case build_mres e (unless_of e strtoks retok) True of
             None \<Rightarrow> None
           | Some (Inl err) \<Rightarrow> Some (Inl err)
           | Some (Inr mres) \<Rightarrow>
               create_callbacks e strtoks retoks ((name retok, mres) # callback))"

definition create_unless ::
  "engine \<Rightarrow> tokendef list \<Rightarrow> (error + tokendef list \<times> callbacks) option" where
  "create_unless e tokens =
     (let retoks = filter (\<lambda>t. pclass (pattern t) = PatternRE) tokens;
          strtoks = filter (\<lambda>t. pclass (pattern t) = PatternStr) tokens;
          embedded_strs = concat (map (embedded_of e strtoks) retoks)
      in case create_callbacks e strtoks retoks [] of
           None \<Rightarrow> None
         | Some (Inl err) \<Rightarrow> Some (Inl err)
         | Some (Inr callback) \<Rightarrow>
             Some (Inr (filter (\<lambda>t. t \<notin> set embedded_strs) tokens, callback)))"


subsection \<open>LineCounter\<close>

record line_counter =
  char_pos :: nat
  cur_line :: nat
  cur_column :: nat
  line_start_pos :: nat

definition LineCounter :: line_counter where
  "LineCounter = \<lparr>char_pos = 0, cur_line = 1, cur_column = 0, line_start_pos = 0\<rparr>"

text \<open>\<^verbatim>\<open>token.rindex(c)\<close>: the last index of \<open>c\<close>, \<open>None\<close> for \<^verbatim>\<open>ValueError\<close>.\<close>

fun rindex :: "string \<Rightarrow> char \<Rightarrow> nat option" where
  "rindex [] c = None"
| "rindex (x # xs) c =
     (case rindex xs c of
        Some i \<Rightarrow> Some (Suc i)
      | None \<Rightarrow> if x = c then Some 0 else None)"

text \<open>
  \<^verbatim>\<open>LineCounter.feed(token, test_newline)\<close>. \<^verbatim>\<open>rindex\<close> is called only when the token
  has a newline, so it does not raise. The column is a difference of naturals:
  \<open>line_start_pos\<close> never exceeds \<open>char_pos\<close> (lemma \<open>feed_line_start\<close>).
\<close>

definition feed :: "line_counter \<Rightarrow> string \<Rightarrow> bool \<Rightarrow> line_counter" where
  "feed lc tok test_newline =
     (let newlines = count_list tok newline_char;
          lc1 = (if test_newline \<and> newlines \<noteq> 0
                 then (case rindex tok newline_char of
                         Some i \<Rightarrow> lc\<lparr>cur_line := cur_line lc + newlines,
                                        line_start_pos := char_pos lc + i + 1\<rparr>
                       | None \<Rightarrow> lc)
                 else lc);
          lc2 = lc1\<lparr>char_pos := char_pos lc1 + length tok\<rparr>
      in lc2\<lparr>cur_column := char_pos lc2 - line_start_pos lc2\<rparr>)"

subsection \<open>UnexpectedInput\<close>

record unexpected_input =
  offending :: char
  err_context :: string
  err_line :: nat
  err_column :: nat
  allowed :: "string list option"

text \<open>
  \<^verbatim>\<open>UnexpectedInput(seq, lex_pos, line, column)\<close>; the message holds \<^verbatim>\<open>seq[lex_pos]\<close>,
  which the lexer reads only when \<open>lex_pos < len(seq)\<close>.
\<close>

definition UnexpectedInput :: "string \<Rightarrow> nat \<Rightarrow> nat \<Rightarrow> nat \<Rightarrow> unexpected_input" where
  "UnexpectedInput seq lex_pos ln col =
     \<lparr>offending = seq ! lex_pos, err_context = take 5 (drop lex_pos seq),
      err_line = ln, err_column = col, allowed = None\<rparr>"

subsection \<open>Lexer\<close>

record lexer =
  ignore :: "string list"
  newline_types :: "string list"
  ignore_types :: "string list"
  callback :: callbacks
  tokens :: "tokendef list"
  mres :: "mre list"

text \<open>The sanitization loop of \<^verbatim>\<open>Lexer.__init__\<close>: the first token that fails raises.\<close>

fun sanitize :: "engine \<Rightarrow> tokendef list \<Rightarrow> error option" where
  "sanitize e [] = None"
| "sanitize e (t # ts) =
     (if re_compile_one e (to_regexp (pattern t)) \<noteq> None
        then Some (LexError_cannot_compile (name t))
      else if min_width (pattern t) = 0 then Some (LexError_zero_width (name t))
      else sanitize e ts)"

text \<open>
  The key of \<^verbatim>\<open>tokens.sort\<close>; tuples and strings compare lexicographically, and the
  sort is stable.
\<close>

definition sort_key_of :: "tokendef \<Rightarrow> int \<times> int \<times> int \<times> string" where
  "sort_key_of x =
     (- priority x, - max_width (pattern x), - int (length (pvalue (pattern x))), name x)"

definition sort_tokens :: "tokendef list \<Rightarrow> tokendef list" where
  "sort_tokens toks = sort_key sort_key_of toks"

text \<open>
  \<^verbatim>\<open>Lexer.__init__(tokens, ignore)\<close>: sanitization, the assertion on \<^verbatim>\<open>ignore\<close>,
  \<^verbatim>\<open>newline_types\<close> from the tokens as given, the sort, the ambiguity resolver, and the
  compiled patterns of the tokens it leaves. The assertion that every callback is true
  holds, a callback being a function object.
\<close>

definition Lexer :: "engine \<Rightarrow> tokendef list \<Rightarrow> string list \<Rightarrow> (error + lexer) option" where
  "Lexer e toks ign =
     (case sanitize e toks of
        Some err \<Rightarrow> Some (Inl err)
      | None \<Rightarrow>
          if \<not> set ign \<subseteq> set (map name toks) then Some (Inl AssertionError)
          else
            (case create_unless e (sort_tokens toks) of
               None \<Rightarrow> None
             | Some (Inl err) \<Rightarrow> Some (Inl err)
             | Some (Inr (toks', cb)) \<Rightarrow>
                 (case build_mres e toks' False of
                    None \<Rightarrow> None
                  | Some (Inl err) \<Rightarrow> Some (Inl err)
                  | Some (Inr ms) \<Rightarrow>
                      Some (Inr \<lparr>ignore = ign,
                                 newline_types =
                                   map name (filter (\<lambda>t. regexp_has_newline (to_regexp (pattern t))) toks),
                                 ignore_types = ign,
                                 callback = cb,
                                 tokens = toks',
                                 mres = ms\<rparr>))))"

subsection \<open>The streaming loop\<close>

text \<open>
  One round of the \<^verbatim>\<open>while True\<close> loop of \<^verbatim>\<open>_Lex.lex\<close> with the lexer read at its head:
  a token is yielded (the line counter is fed when the generator is resumed), an ignored
  match is consumed, \<^verbatim>\<open>UnexpectedInput\<close> is raised, or the loop is left.
\<close>

datatype step = Yield token line_counter | Ignored line_counter | Raise unexpected_input | Stop

definition lex_step ::
  "engine \<Rightarrow> lexer \<Rightarrow> string \<Rightarrow> string list \<Rightarrow> string list \<Rightarrow> line_counter \<Rightarrow> step" where
  "lex_step e lx stream nl_types ign_types line_ctr =
     (case first_match e (mres lx) stream (char_pos line_ctr) of
        Some (v, ty) \<Rightarrow>
          (if ty \<notin> set ign_types
           then (let t = Token ty v (Some (char_pos line_ctr)) (Some (cur_line line_ctr))
                           (Some (cur_column line_ctr));
                     t' = (case map_of (callback lx) (ttype t) of
                             Some cb \<Rightarrow> unless_callback e cb t
                           | None \<Rightarrow> t)
                 in Yield t' (feed line_ctr v (ty \<in> set nl_types)))
           else Ignored (feed line_ctr v (ty \<in> set nl_types)))
      | None \<Rightarrow>
          (if char_pos line_ctr < length stream
           then Raise (UnexpectedInput stream (char_pos line_ctr) (cur_line line_ctr)
                         (cur_column line_ctr))
           else Stop))"

text \<open>
  A session: the tokens delivered, and how the generator ended. The consumer runs between
  a \<^verbatim>\<open>yield\<close> and the next request; \<open>nxt\<close> gives the value of \<^verbatim>\<open>self.lexer\<close> it leaves
  after the tokens delivered so far, \<open>None\<close> when fetching it raises \<^verbatim>\<open>KeyError\<close>.
  The result is \<open>None\<close> when the generator never ends.
\<close>

datatype outcome = Done | Raised unexpected_input | RaisedKeyError

partial_function (option) Lex_lex ::
  "engine \<Rightarrow> (token list \<Rightarrow> lexer option) \<Rightarrow> token list \<Rightarrow> lexer \<Rightarrow> string
     \<Rightarrow> string list \<Rightarrow> string list \<Rightarrow> line_counter \<Rightarrow> (token list \<times> outcome) option" where
  "Lex_lex e nxt hist lx stream nl_types ign_types line_ctr =
     (case lex_step e lx stream nl_types ign_types line_ctr of
        Stop \<Rightarrow> Some (hist, Done)
      | Raise u \<Rightarrow> Some (hist, Raised u)
      | Ignored line_ctr' \<Rightarrow> Lex_lex e nxt hist lx stream nl_types ign_types line_ctr'
      | Yield t line_ctr' \<Rightarrow>
          (case nxt (hist @ [t]) of
             None \<Rightarrow> Some (hist @ [t], RaisedKeyError)
           | Some lx' \<Rightarrow> Lex_lex e nxt (hist @ [t]) lx' stream nl_types ign_types line_ctr'))"

text \<open>\<^verbatim>\<open>Lexer.lex(stream)\<close>: nobody assigns \<^verbatim>\<open>self.lexer\<close>.\<close>

definition Lexer_lex :: "engine \<Rightarrow> lexer \<Rightarrow> string \<Rightarrow> (token list \<times> outcome) option" where
  "Lexer_lex e lx stream =
     Lex_lex e (\<lambda>hist. Some lx) [] lx stream (newline_types lx) (ignore_types lx) LineCounter"

subsection \<open>ContextualLexer\<close>

record 's contextual_lexer =
  lexers :: "('s \<times> lexer) list"
  root_lexer :: lexer

text \<open>\<^verbatim>\<open>[tokens_by_name[n] for n in names]\<close>, \<^verbatim>\<open>KeyError\<close> on a name that is not there.\<close>

fun tokens_by_name :: "tokendef list \<Rightarrow> string list \<Rightarrow> error + tokendef list" where
  "tokens_by_name toks [] = Inr []"
| "tokens_by_name toks (n # ns) =
     (case find (\<lambda>t. name t = n) toks of
        None \<Rightarrow> Inl KeyError
      | Some t \<Rightarrow> (case tokens_by_name toks ns of Inl err \<Rightarrow> Inl err | Inr ts \<Rightarrow> Inr (t # ts)))"

text \<open>
  The loop over \<^verbatim>\<open>states.items()\<close>, with the cache \<^verbatim>\<open>lexer_by_tokens\<close> keyed by the set
  of the accepted names; the dictionary \<^verbatim>\<open>self.lexers\<close> is an association list read
  with \<open>map_of\<close>. \<open>is_terminal\<close> (of \<^verbatim>\<open>common.py\<close>) is a parameter. A Python set is
  iterated in an order of its own; here it is the order of first occurrence.
\<close>

fun build_lexers ::
  "engine \<Rightarrow> (string \<Rightarrow> bool) \<Rightarrow> tokendef list \<Rightarrow> string list \<Rightarrow> string list
     \<Rightarrow> ('s \<times> string list) list \<Rightarrow> (string list \<times> lexer) list \<Rightarrow> ('s \<times> lexer) list
     \<Rightarrow> (error + ('s \<times> lexer) list) option" where
  "build_lexers e is_terminal toks ign always_accept [] lexer_by_tokens lxs = Some (Inr lxs)"
| "build_lexers e is_terminal toks ign always_accept ((state, accepts) # rest) lexer_by_tokens lxs =
     (case find (\<lambda>(key, lx). set key = set accepts) lexer_by_tokens of
        Some (key, lx) \<Rightarrow>
          build_lexers e is_terminal toks ign always_accept rest lexer_by_tokens ((state, lx) # lxs)
      | None \<Rightarrow>
          (case tokens_by_name toks
                  (filter (\<lambda>n. is_terminal n \<and> n \<noteq> ''$END'')
                     (remdups (accepts @ ign @ always_accept))) of
             Inl err \<Rightarrow> Some (Inl err)
           | Inr state_tokens \<Rightarrow>
               (case Lexer e state_tokens ign of
                  None \<Rightarrow> None
                | Some (Inl err) \<Rightarrow> Some (Inl err)
                | Some (Inr lx) \<Rightarrow>
                    build_lexers e is_terminal toks ign always_accept rest
                      (lexer_by_tokens @ [(accepts, lx)]) ((state, lx) # lxs))))"

definition ContextualLexer ::
  "engine \<Rightarrow> (string \<Rightarrow> bool) \<Rightarrow> tokendef list \<Rightarrow> ('s \<times> string list) list \<Rightarrow> string list
     \<Rightarrow> string list \<Rightarrow> (error + 's contextual_lexer) option" where
  "ContextualLexer e is_terminal toks states ign always_accept =
     (if \<not> distinct (map name toks) then Some (Inl AssertionError)
      else case build_lexers e is_terminal toks ign always_accept states [] [] of
             None \<Rightarrow> None
           | Some (Inl err) \<Rightarrow> Some (Inl err)
           | Some (Inr lxs) \<Rightarrow>
               (case Lexer e toks ign of
                  None \<Rightarrow> None
                | Some (Inl err) \<Rightarrow> Some (Inl err)
                | Some (Inr root) \<Rightarrow> Some (Inr \<lparr>lexers = lxs, root_lexer = root\<rparr>)))"

text \<open>
  \<^verbatim>\<open>ContextualLexer.lex(stream)\<close>. \<open>parser_state hist\<close> is the value of
  \<^verbatim>\<open>self.parser_state\<close> when the consumer has received the tokens \<open>hist\<close> and asks for
  the next one (\<open>parser_state []\<close> is the state set before the session starts).
\<close>

definition ContextualLexer_lex ::
  "engine \<Rightarrow> 's contextual_lexer \<Rightarrow> (token list \<Rightarrow> 's) \<Rightarrow> string \<Rightarrow> (token list \<times> outcome) option" where
  "ContextualLexer_lex e cl parser_state stream =
     (case map_of (lexers cl) (parser_state []) of
        None \<Rightarrow> Some ([], RaisedKeyError)
      | Some lx \<Rightarrow>
          Lex_lex e (\<lambda>hist. map_of (lexers cl) (parser_state hist)) [] lx stream
            (newline_types (root_lexer cl)) (ignore_types (root_lexer cl)) LineCounter)"

subsection \<open>A concrete engine for a fragment of Python's regular expressions\<close>

text \<open>
  For the concrete sessions below: a backtracking matcher for the sources made of
  ordinary characters, escaped punctuation (what \<^verbatim>\<open>re.escape\<close> writes), \<^verbatim>\<open>\s\<close>,
  one-range classes \<^verbatim>\<open>[a-z]\<close>, the greedy \<^verbatim>\<open>+\<close> after one of these, \<^verbatim>\<open>$\<close>, and
  capture groups around a sequence of them. Any other source does not parse.
\<close>

datatype atom = Chr char | Rng char char | Spc

datatype item = Once atom | Plus atom | Eos

datatype sym = SAtom atom | SPlus | SOpen | SClose | SEnd

fun atom_ok :: "atom \<Rightarrow> char \<Rightarrow> bool" where
  "atom_ok (Chr c) x = (x = c)"
| "atom_ok (Rng a b) x = (a \<le> x \<and> x \<le> b)"
| "atom_ok Spc x = (x \<in> set [CHR '' '', CHR 0x09, CHR 0x0A, CHR 0x0B, CHR 0x0C, CHR 0x0D])"

definition is_alnum :: "char \<Rightarrow> bool" where
  "is_alnum c = ((CHR ''a'' \<le> c \<and> c \<le> CHR ''z'') \<or> (CHR ''A'' \<le> c \<and> c \<le> CHR ''Z'')
                 \<or> (CHR ''0'' \<le> c \<and> c \<le> CHR ''9''))"

definition push :: "sym \<Rightarrow> sym list option \<Rightarrow> sym list option" where
  "push x r = map_option (\<lambda>ss. x # ss) r"

fun re_syms :: "string \<Rightarrow> sym list option" where
  "re_syms [] = Some []"
| "re_syms (c # cs) =
     (if c = backslash then
        (case cs of
           [] \<Rightarrow> None
         | x # r \<Rightarrow> if x = CHR ''s'' then push (SAtom Spc) (re_syms r)
                    else if is_alnum x then None
                    else push (SAtom (Chr x)) (re_syms r))
      else if c = CHR ''['' then
        (case cs of
           a # m # b # q # r \<Rightarrow>
             if m = CHR ''-'' \<and> q = CHR '']'' \<and> is_alnum a \<and> is_alnum b
             then push (SAtom (Rng a b)) (re_syms r) else None
         | _ \<Rightarrow> None)
      else if c = CHR ''('' then
        (case cs of
           [] \<Rightarrow> None
         | x # r \<Rightarrow> if x = CHR ''?'' then None else push SOpen (re_syms (x # r)))
      else if c = CHR '')'' then push SClose (re_syms cs)
      else if c = CHR ''+'' then push SPlus (re_syms cs)
      else if c = CHR ''$'' then push SEnd (re_syms cs)
      else if c \<in> set ''.*?|^{}]'' then None
      else push (SAtom (Chr c)) (re_syms cs))"

definition add_item :: "item \<Rightarrow> (item list \<times> nat) option \<Rightarrow> (item list \<times> nat) option" where
  "add_item i r = map_option (\<lambda>(is, g). (i # is, g)) r"

definition add_group :: "(item list \<times> nat) option \<Rightarrow> (item list \<times> nat) option" where
  "add_group r = map_option (\<lambda>(is, g). (is, Suc g)) r"

text \<open>The items of a source and the number of its capture groups; \<open>d\<close> counts the open groups.\<close>

fun re_items :: "nat \<Rightarrow> sym list \<Rightarrow> (item list \<times> nat) option" where
  "re_items d [] = (if d = 0 then Some ([], 0) else None)"
| "re_items d (SAtom a # SPlus # ss) = add_item (Plus a) (re_items d ss)"
| "re_items d (SAtom a # ss) = add_item (Once a) (re_items d ss)"
| "re_items d (SPlus # ss) = None"
| "re_items d (SOpen # ss) = add_group (re_items (Suc d) ss)"
| "re_items d (SClose # SPlus # ss) = None"
| "re_items d (SClose # ss) = (case d of 0 \<Rightarrow> None | Suc d' \<Rightarrow> re_items d' ss)"
| "re_items d (SEnd # ss) = add_item Eos (re_items d ss)"

definition re_parse :: "string \<Rightarrow> (item list \<times> nat) option" where
  "re_parse r = (case re_syms r of None \<Rightarrow> None | Some ss \<Rightarrow> re_items 0 ss)"

text \<open>
  The length of the first match the backtracking finds: \<^verbatim>\<open>x+\<close> takes as many as it can
  and gives back; \<^verbatim>\<open>$\<close> holds at the end and before a final newline.
\<close>

fun bt :: "item list \<Rightarrow> string \<Rightarrow> nat option" where
  "bt [] s = Some 0"
| "bt (Eos # is) s = (if s = [] \<or> s = [newline_char] then bt is s else None)"
| "bt (Once a # is) [] = None"
| "bt (Once a # is) (c # cs) = (if atom_ok a c then map_option Suc (bt is cs) else None)"
| "bt (Plus a # is) [] = None"
| "bt (Plus a # is) (c # cs) =
     (if atom_ok a c
      then (case bt (Plus a # is) cs of
              Some n \<Rightarrow> Some (Suc n)
            | None \<Rightarrow> map_option Suc (bt is cs))
      else None)"

definition py_re :: engine where
  "py_re =
     \<lparr>re_syntax_ok = (\<lambda>r. re_parse r \<noteq> None),
      re_groups = (\<lambda>r. case re_parse r of Some (is, g) \<Rightarrow> g | None \<Rightarrow> 0),
      re_maxgroups = 99,
      re_match = (\<lambda>r s pos. case re_parse r of
                               None \<Rightarrow> None
                             | Some (is, g) \<Rightarrow> bt is (drop pos s))\<rparr>"

subsection \<open>Construction followed by a session\<close>

text \<open>\<^verbatim>\<open>Lexer(tokens, ignore).lex(stream)\<close>, run to its end.\<close>

definition tokenize ::
  "engine \<Rightarrow> tokendef list \<Rightarrow> string list \<Rightarrow> string \<Rightarrow> (error + token list \<times> outcome) option" where
  "tokenize e toks ign stream =
     (case Lexer e toks ign of
        None \<Rightarrow> None
      | Some (Inl err) \<Rightarrow> Some (Inl err)
      | Some (Inr lx) \<Rightarrow> map_option Inr (Lexer_lex e lx stream))"

declare build_mres_loop.simps [code]

declare Lex_lex.simps [code]

subsection \<open>The token order in words\<close>

text \<open>
  The order of the sort key, written out: higher priority first; then the wider maximum
  width; then the longer \<^verbatim>\<open>pattern.value\<close> (the text of a literal, the source of a
  regexp); then the name.
\<close>

definition precedes :: "tokendef \<Rightarrow> tokendef \<Rightarrow> bool" where
  "precedes a b =
     (priority b < priority a
      \<or> (priority a = priority b
          \<and> (max_width (pattern b) < max_width (pattern a)
              \<or> (max_width (pattern a) = max_width (pattern b)
                  \<and> (length (pvalue (pattern b)) < length (pvalue (pattern a))
                      \<or> (length (pvalue (pattern a)) = length (pvalue (pattern b))
                          \<and> name a < name b))))))"

text \<open>
  The order as the specification words it: the tie-break on the length of the value is
  applied between literal tokens only.
\<close>

definition spec_precedes :: "tokendef \<Rightarrow> tokendef \<Rightarrow> bool" where
  "spec_precedes a b =
     (priority b < priority a
      \<or> (priority a = priority b
          \<and> (max_width (pattern b) < max_width (pattern a)
              \<or> (max_width (pattern a) = max_width (pattern b)
                  \<and> (if pclass (pattern a) = PatternStr \<and> pclass (pattern b) = PatternStr
                      then (length (pvalue (pattern b)) < length (pvalue (pattern a))
                            \<or> (length (pvalue (pattern a)) = length (pvalue (pattern b))
                                \<and> name a < name b))
                      else name a < name b)))))"

subsection \<open>Progress\<close>

text \<open>No compiled pattern of the lexer matches the empty text at an offset of the stream.\<close>

definition no_empty_match :: "engine \<Rightarrow> lexer \<Rightarrow> string \<Rightarrow> bool" where
  "no_empty_match e lx stream =
     list_all (\<lambda>pos. case first_match e (mres lx) stream pos of
                        Some (v, ty) \<Rightarrow> v \<noteq> []
                      | None \<Rightarrow> True)
       [0 ..< Suc (length stream)]"

text \<open>Token \<open>b\<close> starts at or after the end of token \<open>a\<close>.\<close>

definition starts_after :: "token \<Rightarrow> token \<Rightarrow> bool" where
  "starts_after a b =
     (case (pos_in_stream a, pos_in_stream b) of
        (Some p, Some q) \<Rightarrow> p + length (tvalue a) \<le> q
      | _ \<Rightarrow> False)"

text \<open>Token \<open>a\<close> ends at or before the offset \<open>n\<close>.\<close>

definition ends_by :: "nat \<Rightarrow> token \<Rightarrow> bool" where
  "ends_by n a = (case pos_in_stream a of Some p \<Rightarrow> p + length (tvalue a) \<le> n | None \<Rightarrow> False)"

text \<open>
  The tokens of a session up to an offset \<open>n\<close>: none is empty, each ends by \<open>n\<close>, and
  each starts at or after the end of those before it.
\<close>

definition delivered_ok :: "nat \<Rightarrow> token list \<Rightarrow> bool" where
  "delivered_ok n ts = ((\<forall>t\<in>set ts. tvalue t \<noteq> [] \<and> ends_by n t) \<and> sorted_wrt starts_after ts)"

subsection \<open>Concrete token definitions\<close>

text \<open>
  \<^verbatim>\<open>TokenDef(name, PatternStr(value), priority)\<close> for a value of letters and digits, which
  \<^verbatim>\<open>re.escape\<close> leaves as it is, and \<^verbatim>\<open>TokenDef(name, PatternRE(source), priority)\<close> with
  the widths of the source.
\<close>

definition literal :: "string \<Rightarrow> pattern" where
  "literal v = \<lparr>pclass = PatternStr, pvalue = v, flags = [], to_regexp = v,
                min_width = int (length v), max_width = int (length v)\<rparr>"

definition regexp :: "string \<Rightarrow> int \<Rightarrow> int \<Rightarrow> pattern" where
  "regexp src lo hi = \<lparr>pclass = PatternRE, pvalue = src, flags = [], to_regexp = src,
                        min_width = lo, max_width = hi\<rparr>"

definition TokenDef :: "string \<Rightarrow> pattern \<Rightarrow> int \<Rightarrow> tokendef" where
  "TokenDef n p pr = \<lparr>name = n, pattern = p, priority = pr\<rparr>"

definition MAXREPEAT :: int where
  "MAXREPEAT = 4294967295"

definition IDENT :: "int \<Rightarrow> tokendef" where
  "IDENT pr = TokenDef ''IDENT'' (regexp ''[a-z]+'' 1 MAXREPEAT) pr"

definition IF :: "int \<Rightarrow> tokendef" where
  "IF pr = TokenDef ''IF'' (literal ''if'') pr"

definition WS :: tokendef where
  "WS = TokenDef ''WS'' (regexp [backslash, CHR ''s'', CHR ''+''] 1 MAXREPEAT) 0"



definition re_A :: tokendef where
  "re_A = TokenDef ''A'' (regexp ''a+'' 1 MAXREPEAT) 0"

definition re_B :: tokendef where
  "re_B = TokenDef ''B'' (regexp ''[a-z]+'' 1 MAXREPEAT) 0"


text \<open>
  \<^verbatim>\<open>TokenDef(name, PatternStr(value), priority)\<close> for a value of \<open>n\<close> newlines:
  \<^verbatim>\<open>re.escape\<close> puts a backslash before each of them.
\<close>

definition newlines :: "nat \<Rightarrow> pattern" where
  "newlines n =
     \<lparr>pclass = PatternStr, pvalue = replicate n newline_char, flags = [],
      to_regexp = concat (replicate n [backslash, newline_char]),
      min_width = int n, max_width = int n\<rparr>"

definition NL1 :: tokendef where
  "NL1 = TokenDef ''NL1'' (newlines 1) 10"

definition NL2 :: tokendef where
  "NL2 = TokenDef ''NL2'' (newlines 2) 5"

text \<open>A source with \<open>n\<close> capture groups that matches the one character \<open>c\<close>.\<close>

definition grouped :: "char \<Rightarrow> nat \<Rightarrow> string" where
  "grouped c n = c # concat (replicate n ''()'')"

definition tok_a :: tokendef where
  "tok_a = TokenDef ''A'' (literal ''a'') 2"

definition tok_b :: tokendef where
  "tok_b = TokenDef ''B'' (literal ''b'') 2"

definition tok_c :: tokendef where
  "tok_c = TokenDef ''C'' (regexp (grouped CHR ''c'' 49) 1 1) 1"

definition tok_d :: tokendef where
  "tok_d = TokenDef ''D'' (regexp (grouped CHR ''d'' 49) 1 1) 1"

definition tok_g :: tokendef where
  "tok_g = TokenDef ''G'' (regexp (grouped CHR ''g'' 99) 1 1) 1"

text \<open>Two parser states: in \<open>S1\<close> the parser accepts \<open>A\<close>, in \<open>S2\<close> it accepts \<open>B\<close>.\<close>

datatype pstate = S1 | S2

definition ctx_states :: "(pstate \<times> string list) list" where
  "ctx_states = [(S1, [''A'']), (S2, [''B''])]"

text \<open>A consumer that never changes the state, and one that sets \<open>S2\<close> on the first token.\<close>

definition stay :: "pstate \<Rightarrow> token list \<Rightarrow> pstate" where
  "stay st hist = st"

definition switch_after_first :: "token list \<Rightarrow> pstate" where
  "switch_after_first hist = (if hist = [] then S1 else S2)"

text \<open>
  The Lexer that \<^verbatim>\<open>Lexer([IDENT, IF])\<close> builds, and the one of \<^verbatim>\<open>Lexer([IDENT, I, IF])\<close>
  with \<open>IF\<close> of priority 10, \<open>I\<close> of priority 7 and \<open>IDENT\<close> of priority 5.
\<close>

definition kw_lexer :: lexer where
  "kw_lexer =
     \<lparr>ignore = [], newline_types = [], ignore_types = [],
      callback = [(''IDENT'', [[(''IF'', ''if$'')]])],
      tokens = [IDENT 0],
      mres = [[(''IDENT'', ''[a-z]+'')]]\<rparr>"


text \<open>
  The ContextualLexer that \<^verbatim>\<open>ContextualLexer([A, B], {S1: [A], S2: [B]})\<close> builds, with
  the Lexers of its two states.
\<close>

definition lexer_of_A :: lexer where
  "lexer_of_A =
     \<lparr>ignore = [], newline_types = [], ignore_types = [], callback = [],
      tokens = [tok_a], mres = [[(''A'', ''a'')]]\<rparr>"

definition lexer_of_B :: lexer where
  "lexer_of_B =
     \<lparr>ignore = [], newline_types = [], ignore_types = [], callback = [],
      tokens = [tok_b], mres = [[(''B'', ''b'')]]\<rparr>"

definition ctx_lexer :: "pstate contextual_lexer" where
  "ctx_lexer =
     \<lparr>lexers = [(S2, lexer_of_B), (S1, lexer_of_A)],
      root_lexer = \<lparr>ignore = [], newline_types = [], ignore_types = [], callback = [],
                     tokens = [tok_a, tok_b], mres = [[(''A'', ''a''), (''B'', ''b'')]]\<rparr>\<rparr>"

text \<open>\<^verbatim>\<open>ContextualLexer(tokens, states, ignore).lex(stream)\<close> under a consumer, run to its end.\<close>

definition ctx_tokenize ::
  "engine \<Rightarrow> (string \<Rightarrow> bool) \<Rightarrow> tokendef list \<Rightarrow> ('s \<times> string list) list \<Rightarrow> string list
     \<Rightarrow> string list \<Rightarrow> (token list \<Rightarrow> 's) \<Rightarrow> string \<Rightarrow> (error + token list \<times> outcome) option" where
  "ctx_tokenize e is_terminal toks states ign always_accept parser_state stream =
     (case ContextualLexer e is_terminal toks states ign always_accept of
        None \<Rightarrow> None
      | Some (Inl err) \<Rightarrow> Some (Inl err)
      | Some (Inr cl) \<Rightarrow> map_option Inr (ContextualLexer_lex e cl parser_state stream))"

section \<open>Properties\<close>

text \<open>
  C10. Token equality ignores the type unless both operands are Tokens: a Token equals a
  plain string exactly when their characters are equal, whatever its type; two Tokens are
  equal exactly when their types and their characters are equal.
\<close>

theorem Token_eq_type_only_between_tokens:
  "Token_eq t (PlainStr s) = (tvalue t = s)
   \<and> Token_eq t (Tok u) = (ttype t = ttype u \<and> tvalue t = tvalue u)"
  by (auto simp: Token_eq_def)

subsection \<open>The matcher compiler\<close>

text \<open>With a batch size of 0 the loop compiles the empty pattern and keeps all its tokens.\<close>

lemma re_compile_Nil: "re_compile e [] = Compiled []"
  by (simp add: re_compile_def count_groups_def)

lemma build_mres_loop_zero_Some:
  assumes "build_mres_loop e toks ms mw acc = Some y"
  shows "ms = 0 \<longrightarrow> toks = []"
proof (rule build_mres_loop.raw_induct
         [where P = "\<lambda>e toks ms mw acc y. ms = 0 \<longrightarrow> toks = []", OF _ assms])
  fix loop :: "engine \<Rightarrow> tokendef list \<Rightarrow> nat \<Rightarrow> bool \<Rightarrow> mre list \<Rightarrow> (error + mre list) option"
  fix e toks ms mw acc y
  assume IH: "\<And>e toks ms mw acc y. loop e toks ms mw acc = Some y \<Longrightarrow> ms = 0 \<longrightarrow> toks = []"
  assume body:
    "(if toks = [] then Some (Inr acc)
      else case re_compile e (alternatives mw (take ms toks)) of
             Compiled mre \<Rightarrow> loop e (drop ms toks) ms mw (acc @ [mre])
           | CompileAssertionError \<Rightarrow> loop e toks (ms div 2) mw []
           | CompileReError \<Rightarrow> Some (Inl ReError)) = Some y"
  show "ms = 0 \<longrightarrow> toks = []"
  proof
    assume z: "ms = 0"
    show "toks = []"
    proof (rule ccontr)
      assume ne: "toks \<noteq> []"
      with z body have "loop e toks 0 mw (acc @ [[]]) = Some y"
        by (simp add: alternatives_def re_compile_Nil)
      from IH [OF this] ne show False by simp
    qed
  qed
qed

lemma build_mres_loop_zero: "toks \<noteq> [] \<Longrightarrow> build_mres_loop e toks 0 mw acc = None"
  using build_mres_loop_zero_Some [of e toks 0 mw acc] by (cases "build_mres_loop e toks 0 mw acc") auto

lemma tok_g_alone: "re_compile_one py_re (to_regexp (pattern tok_g)) = None"
  by code_simp

lemma tok_g_named: "re_compile py_re (alternatives False [tok_g]) = CompileAssertionError"
  by code_simp

lemma tok_g_pre:
  "sanitize py_re [tok_g] = None \<and> create_unless py_re (sort_tokens [tok_g]) = Some (Inr ([tok_g], []))"
  by code_simp

text \<open>
  C9. The claim: the matcher compiler terminates for every token list, the halving being
  bounded below by a batch size of 1. In the code the batch size goes from 1 to 0, and
  the loop then never ends: for a token whose source has 99 capture groups (it compiles
  alone, and exceeds the ceiling inside its named group), \<open>build_mres\<close> and the
  construction of the Lexer do not return.
\<close>

theorem single_token_over_ceiling_never_returns:
  "re_compile_one py_re (to_regexp (pattern tok_g)) = None
   \<and> build_mres py_re [tok_g] False = None
   \<and> Lexer py_re [tok_g] [] = None"
proof -
  have "build_mres_loop py_re [tok_g] 1 False [] = build_mres_loop py_re [tok_g] 0 False []"
    by (subst build_mres_loop.simps) (simp add: tok_g_named)
  then have b: "build_mres py_re [tok_g] False = None"
    by (simp add: build_mres_def build_mres_from_def build_mres_loop_zero)
  have "Lexer py_re [tok_g] [] = None"
    by (simp add: Lexer_def tok_g_pre b del: sanitize.simps)
  with b tok_g_alone show ?thesis by simp
qed

text \<open>
  C3. The claim: the alternatives of the compiled patterns, in order, are the token list.
  In the code a batch that fails after an earlier batch was compiled restarts on the
  remaining tokens only: of the tokens \<open>A, B, C, D\<close>, where \<open>C\<close> and \<open>D\<close> have 49 capture
  groups each, only \<open>C\<close> and \<open>D\<close> are compiled, and the input \<open>a\<close>, which \<open>A\<close> matches, is
  an error.
\<close>

theorem later_batch_failure_drops_earlier_batches:
  "build_mres py_re [tok_a, tok_b, tok_c, tok_d] False
     = Some (Inr [[(''C'', grouped CHR ''c'' 49)], [(''D'', grouped CHR ''d'' 49)]])
   \<and> alternatives False [tok_a, tok_b, tok_c, tok_d]
       \<noteq> concat [[(''C'', grouped CHR ''c'' 49)], [(''D'', grouped CHR ''d'' 49)]]
   \<and> sort_tokens [tok_a, tok_b, tok_c, tok_d] = [tok_a, tok_b, tok_c, tok_d]
   \<and> re_match py_re (to_regexp (pattern tok_a)) ''a'' 0 = Some 1
   \<and> tokenize py_re [tok_a, tok_b, tok_c, tok_d] [] ''a''
       = Some (Inr ([], Raised (UnexpectedInput ''a'' 0 1 0)))"
  by code_simp

subsection \<open>The token order\<close>

lemma precedes_iff_key: "precedes a b = (sort_key_of a < sort_key_of b)"
  by (auto simp: precedes_def sort_key_of_def less_prod_def)

lemma sorted_key_precedes:
  "sorted (map sort_key_of xs) \<Longrightarrow> sorted_wrt (\<lambda>a b. \<not> precedes b a) xs"
  by (induction xs) (auto simp: precedes_iff_key)

text \<open>
  C4, amended. The sort puts the tokens in the order: higher priority first; then wider
  maximum width; then longer value, for literals and regexps alike; then the name. It
  permutes the tokens and keeps the input order of tokens that tie on all four.
\<close>

theorem sort_tokens_is_key_order:
  "sorted_wrt (\<lambda>a b. \<not> precedes b a) (sort_tokens toks)
   \<and> mset (sort_tokens toks) = mset toks
   \<and> filter (\<lambda>t. \<not> precedes a t \<and> \<not> precedes t a) (sort_tokens toks)
       = filter (\<lambda>t. \<not> precedes a t \<and> \<not> precedes t a) toks"
proof -
  have eq: "(\<lambda>t. \<not> precedes a t \<and> \<not> precedes t a) = (\<lambda>t. sort_key_of t = sort_key_of a)"
    by (auto simp: precedes_iff_key)
  show ?thesis
    unfolding eq sort_tokens_def
    by (simp add: sorted_key_precedes sort_key_stable)
qed

theorem sort_tokens_is_key_order_witness:
  "sorted_wrt (\<lambda>a b. \<not> precedes b a) (sort_tokens [re_A, re_B])
   \<and> sort_tokens [re_A, re_B] = [re_B, re_A]"
proof -
  have "sort_tokens [re_A, re_B] = [re_B, re_A]" by code_simp
  with sort_tokens_is_key_order [of "[re_A, re_B]" re_A] show ?thesis by simp
qed

text \<open>
  C4 as stated, with the length tie-break between literals only, fails: two regexp tokens
  of equal priority and width are ordered by the length of their sources, against the
  order of their names.
\<close>

theorem length_tiebreak_on_regexps_counterexample:
  "sort_tokens [re_A, re_B] = [re_B, re_A]
   \<and> spec_precedes re_A re_B
   \<and> \<not> spec_precedes re_B re_A"
  by code_simp

subsection \<open>The newline heuristic\<close>

text \<open>
  C5. The claim: every token whose pattern can match a newline is in \<open>newline_types\<close>.
  The source \<^verbatim>\<open>\s+\<close> matches a newline and the heuristic does not see it: the
  token is left out, and the token after the newline is reported on line 1.
\<close>

theorem whitespace_class_omitted_from_newline_types:
  "re_match py_re (to_regexp (pattern WS)) [newline_char] 0 = Some 1
   \<and> \<not> regexp_has_newline (to_regexp (pattern WS))
   \<and> map_option (map_sum id newline_types) (Lexer py_re [IDENT 0, WS] [''WS'']) = Some (Inr [])
   \<and> tokenize py_re [IDENT 0, WS] [''WS''] (''a'' @ [newline_char] @ ''bb'')
       = Some (Inr ([Token ''IDENT'' ''a'' (Some 0) (Some 1) (Some 0),
                     Token ''IDENT'' ''bb'' (Some 2) (Some 1) (Some 2)], Done))"
  by code_simp

subsection \<open>The streaming loop\<close>

lemma feed_char_pos: "char_pos (feed lc v b) = char_pos lc + length v"
  by (simp add: feed_def Let_def split: option.splits)

lemma rindex_less: "rindex tok c = Some i \<Longrightarrow> i < length tok"
  by (induction tok arbitrary: i) (auto split: option.splits if_splits)

lemma feed_line_start:
  "line_start_pos lc \<le> char_pos lc \<Longrightarrow> line_start_pos (feed lc v b) \<le> char_pos (feed lc v b)"
  by (auto simp: feed_def Let_def dest: rindex_less split: option.splits)

lemma unless_callback_keeps:
  "tvalue (unless_callback e cb t) = tvalue t \<and> pos_in_stream (unless_callback e cb t) = pos_in_stream t
   \<and> line (unless_callback e cb t) = line t \<and> column (unless_callback e cb t) = column t"
  by (simp add: unless_callback_def split: option.splits prod.splits)

lemma mre_match_slice:
  "mre_match e alts stream pos = Some (v, ty) \<Longrightarrow> \<exists>k. v = group0 stream pos k"
  by (induction alts) (auto split: option.splits)

lemma first_match_slice:
  "first_match e ms stream pos = Some (v, ty) \<Longrightarrow> \<exists>k. v = group0 stream pos k"
  by (induction ms) (auto split: option.splits dest: mre_match_slice)

lemma slice_within: "pos \<le> length stream \<Longrightarrow> pos + length (group0 stream pos k) \<le> length stream"
  by (simp add: group0_def)

lemma no_empty_matchD:
  assumes "no_empty_match e lx stream" "pos \<le> length stream"
    "first_match e (mres lx) stream pos = Some (v, ty)"
  shows "v \<noteq> []"
proof -
  have "\<forall>p\<in>set [0 ..< Suc (length stream)].
          (case first_match e (mres lx) stream p of Some (v, ty) \<Rightarrow> v \<noteq> [] | None \<Rightarrow> True)"
    using assms(1) by (simp add: no_empty_match_def list_all_iff)
  moreover have "pos \<in> set [0 ..< Suc (length stream)]" using assms(2) by auto
  ultimately have "case first_match e (mres lx) stream pos of
                     Some (v, ty) \<Rightarrow> v \<noteq> [] | None \<Rightarrow> True"
    by blast
  with assms(3) show ?thesis by simp
qed

lemma lex_step_Yield:
  assumes "lex_step e lx stream nl ig lc = Yield t lc'"
  shows "\<exists>v ty. first_match e (mres lx) stream (char_pos lc) = Some (v, ty) \<and> tvalue t = v
           \<and> pos_in_stream t = Some (char_pos lc) \<and> line t = Some (cur_line lc)
           \<and> column t = Some (cur_column lc) \<and> ty \<notin> set ig
           \<and> lc' = feed lc v (ty \<in> set nl)"
  using assms
  by (auto simp: lex_step_def Let_def Token_def unless_callback_keeps
           split: option.splits prod.splits if_splits)

lemma lex_step_Ignored:
  assumes "lex_step e lx stream nl ig lc = Ignored lc'"
  shows "\<exists>v ty. first_match e (mres lx) stream (char_pos lc) = Some (v, ty) \<and> ty \<in> set ig
           \<and> lc' = feed lc v (ty \<in> set nl)"
  using assms
  by (auto simp: lex_step_def Let_def split: option.splits prod.splits if_splits)

lemma lex_step_Raise_iff:
  "(lex_step e lx stream nl ig lc = Raise u)
     = (first_match e (mres lx) stream (char_pos lc) = None \<and> char_pos lc < length stream
        \<and> u = UnexpectedInput stream (char_pos lc) (cur_line lc) (cur_column lc))"
  by (auto simp: lex_step_def Let_def split: option.splits prod.splits if_splits)

lemma lex_step_Stop_iff:
  "(lex_step e lx stream nl ig lc = Stop)
     = (first_match e (mres lx) stream (char_pos lc) = None \<and> \<not> char_pos lc < length stream)"
  by (auto simp: lex_step_def Let_def split: option.splits prod.splits if_splits)

lemma Yield_progress:
  assumes "lex_step e lx stream nl ig lc = Yield t lc'" "no_empty_match e lx stream"
    "char_pos lc \<le> length stream"
  shows "tvalue t \<noteq> [] \<and> pos_in_stream t = Some (char_pos lc)
         \<and> char_pos lc' = char_pos lc + length (tvalue t) \<and> char_pos lc' \<le> length stream"
proof -
  from lex_step_Yield [OF assms(1)] obtain v ty where
    m: "first_match e (mres lx) stream (char_pos lc) = Some (v, ty)" and v: "tvalue t = v"
    and p: "pos_in_stream t = Some (char_pos lc)" and l: "lc' = feed lc v (ty \<in> set nl)"
    by blast
  from no_empty_matchD [OF assms(2,3) m] have ne: "v \<noteq> []" .
  from first_match_slice [OF m] obtain k where "v = group0 stream (char_pos lc) k" by blast
  with slice_within [OF assms(3)] have "char_pos lc + length v \<le> length stream" by simp
  with ne v p l show ?thesis by (simp add: feed_char_pos)
qed

lemma Ignored_progress:
  assumes "lex_step e lx stream nl ig lc = Ignored lc'" "no_empty_match e lx stream"
    "char_pos lc \<le> length stream"
  shows "char_pos lc < char_pos lc' \<and> char_pos lc' \<le> length stream"
proof -
  from lex_step_Ignored [OF assms(1)] obtain v ty where
    m: "first_match e (mres lx) stream (char_pos lc) = Some (v, ty)"
    and l: "lc' = feed lc v (ty \<in> set nl)"
    by blast
  from no_empty_matchD [OF assms(2,3) m] have ne: "v \<noteq> []" .
  from first_match_slice [OF m] obtain k where "v = group0 stream (char_pos lc) k" by blast
  with slice_within [OF assms(3)] have "char_pos lc + length v \<le> length stream" by simp
  with ne l show ?thesis by (simp add: feed_char_pos)
qed

lemma ends_by_mono: "ends_by n t \<Longrightarrow> n \<le> m \<Longrightarrow> ends_by m t"
  by (auto simp: ends_by_def split: option.splits)

lemma delivered_ok_mono: "delivered_ok n ts \<Longrightarrow> n \<le> m \<Longrightarrow> delivered_ok m ts"
  by (auto simp: delivered_ok_def intro: ends_by_mono)

lemma delivered_ok_snoc:
  assumes "delivered_ok n ts" "tvalue t \<noteq> []" "pos_in_stream t = Some n" "n + length (tvalue t) \<le> m"
  shows "delivered_ok m (ts @ [t])"
proof -
  have "\<forall>x\<in>set ts. starts_after x t"
    using assms(1,3) by (auto simp: delivered_ok_def starts_after_def ends_by_def split: option.splits)
  moreover have "ends_by m t" using assms(3,4) by (simp add: ends_by_def)
  moreover have "n \<le> m" using assms(4) by simp
  ultimately show ?thesis
    using assms(1,2) by (auto simp: delivered_ok_def sorted_wrt_append intro: ends_by_mono)
qed

lemma Lex_lex_terminates:
  assumes nxt: "\<And>h lx'. nxt h = Some lx' \<Longrightarrow> no_empty_match e lx' stream"
  shows "no_empty_match e lx stream \<Longrightarrow> char_pos lc \<le> length stream
           \<Longrightarrow> delivered_ok (char_pos lc) hist
           \<Longrightarrow> \<exists>ts out. Lex_lex e nxt hist lx stream nl ig lc = Some (ts, out)
                    \<and> delivered_ok (length stream) ts
                    \<and> (out = RaisedKeyError \<longrightarrow> (\<exists>h. nxt h = None))"
proof (induction "length stream - char_pos lc" arbitrary: hist lx lc rule: less_induct)
  case less
  show ?case
  proof (cases "lex_step e lx stream nl ig lc")
    case Stop
    then have "Lex_lex e nxt hist lx stream nl ig lc = Some (hist, Done)"
      by (subst Lex_lex.simps) simp
    with less.prems show ?thesis by (auto intro: delivered_ok_mono)
  next
    case (Raise u)
    then have "Lex_lex e nxt hist lx stream nl ig lc = Some (hist, Raised u)"
      by (subst Lex_lex.simps) simp
    with less.prems show ?thesis by (auto intro: delivered_ok_mono)
  next
    case (Ignored lc')
    from Ignored_progress [OF Ignored less.prems(1,2)]
    have p: "char_pos lc < char_pos lc'" "char_pos lc' \<le> length stream" by simp_all
    have u: "Lex_lex e nxt hist lx stream nl ig lc = Lex_lex e nxt hist lx stream nl ig lc'"
      using Ignored by (subst Lex_lex.simps) simp
    have "length stream - char_pos lc' < length stream - char_pos lc" using p by arith
    moreover have "delivered_ok (char_pos lc') hist"
      using less.prems(3) p(1) by (auto intro: delivered_ok_mono)
    ultimately show ?thesis
      using less.hyps [of lc' lx hist] less.prems(1) p(2) u by simp
  next
    case (Yield t lc')
    from Yield_progress [OF Yield less.prems(1,2)]
    have p: "tvalue t \<noteq> []" "pos_in_stream t = Some (char_pos lc)"
      "char_pos lc' = char_pos lc + length (tvalue t)" "char_pos lc' \<le> length stream"
      by simp_all
    have d: "delivered_ok (char_pos lc') (hist @ [t])"
      using delivered_ok_snoc [OF less.prems(3) p(1,2)] p(3) by simp
    show ?thesis
    proof (cases "nxt (hist @ [t])")
      case None
      then have "Lex_lex e nxt hist lx stream nl ig lc = Some (hist @ [t], RaisedKeyError)"
        using Yield by (subst Lex_lex.simps) simp
      with d p(4) None show ?thesis by (auto intro: delivered_ok_mono)
    next
      case (Some lx')
      then have u: "Lex_lex e nxt hist lx stream nl ig lc
                      = Lex_lex e nxt (hist @ [t]) lx' stream nl ig lc'"
        using Yield by (subst Lex_lex.simps) simp
      have m: "length stream - char_pos lc' < length stream - char_pos lc"
        using p(1,3,4) by (cases "tvalue t") auto
      from less.hyps [OF m nxt [OF Some] p(4) d] u show ?thesis by simp
    qed
  qed
qed

lemma sanitize_min_width: "sanitize e toks = None \<Longrightarrow> \<forall>t\<in>set toks. min_width (pattern t) \<noteq> 0"
  by (induction toks) (auto split: if_splits)

lemma Lexer_sanitized: "Lexer e toks ign = Some (Inr lx) \<Longrightarrow> sanitize e toks = None"
  by (auto simp: Lexer_def split: option.splits if_splits sum.splits)

lemma kw_lexer_built: "Lexer py_re [IDENT 0, IF 0] [] = Some (Inr kw_lexer)"
  by code_simp

lemma kw_lexer_progress: "no_empty_match py_re kw_lexer ''ifx''"
  by code_simp

text \<open>
  C7. For a Lexer that was constructed (so no token has \<open>min_width = 0\<close>) and none of
  whose compiled patterns matches the empty text on the stream: the session ends, in
  \<open>Done\<close> or in a lexical error; every token delivered has a value of at least one
  character and starts at or after the end of the token before it; and every match,
  delivered or ignored, moves the offset strictly forward.
\<close>

theorem progress_and_termination:
  assumes "Lexer e toks ign = Some (Inr lx)" and "no_empty_match e lx stream"
  shows "(\<forall>t\<in>set toks. min_width (pattern t) \<noteq> 0)
         \<and> (\<exists>ts out. Lexer_lex e lx stream = Some (ts, out)
               \<and> (out = Done \<or> (\<exists>u. out = Raised u))
               \<and> (\<forall>t\<in>set ts. 1 \<le> length (tvalue t))
               \<and> sorted_wrt starts_after ts)
         \<and> (\<forall>lc t lc'. char_pos lc \<le> length stream
               \<and> (lex_step e lx stream (newline_types lx) (ignore_types lx) lc = Yield t lc'
                    \<or> lex_step e lx stream (newline_types lx) (ignore_types lx) lc = Ignored lc')
               \<longrightarrow> char_pos lc < char_pos lc')"
proof -
  have a: "\<forall>t\<in>set toks. min_width (pattern t) \<noteq> 0"
    using sanitize_min_width [OF Lexer_sanitized [OF assms(1)]] .
  have "delivered_ok (char_pos LineCounter) []" by (simp add: delivered_ok_def)
  moreover have "char_pos LineCounter \<le> length stream" by (simp add: LineCounter_def)
  ultimately obtain ts out where
    r: "Lex_lex e (\<lambda>hist. Some lx) [] lx stream (newline_types lx) (ignore_types lx) LineCounter
          = Some (ts, out)"
    and d: "delivered_ok (length stream) ts"
    and k: "out = RaisedKeyError \<longrightarrow> (\<exists>h. (\<lambda>hist. Some lx) h = None)"
    using Lex_lex_terminates [of "\<lambda>hist. Some lx" e stream lx LineCounter "[]"] assms(2)
    by blast
  from k have o: "out = Done \<or> (\<exists>u. out = Raised u)" by (cases out) auto
  from d have v: "\<forall>t\<in>set ts. 1 \<le> length (tvalue t)"
    by (auto simp: delivered_ok_def Suc_le_eq)
  from d have s: "sorted_wrt starts_after ts" by (simp add: delivered_ok_def)
  have b: "\<exists>ts out. Lexer_lex e lx stream = Some (ts, out)
               \<and> (out = Done \<or> (\<exists>u. out = Raised u))
               \<and> (\<forall>t\<in>set ts. 1 \<le> length (tvalue t))
               \<and> sorted_wrt starts_after ts"
    using r o v s by (auto simp: Lexer_lex_def)
  have c: "\<forall>lc t lc'. char_pos lc \<le> length stream
               \<and> (lex_step e lx stream (newline_types lx) (ignore_types lx) lc = Yield t lc'
                    \<or> lex_step e lx stream (newline_types lx) (ignore_types lx) lc = Ignored lc')
               \<longrightarrow> char_pos lc < char_pos lc'"
  proof (intro allI impI)
    fix lc t lc'
    assume h: "char_pos lc \<le> length stream
               \<and> (lex_step e lx stream (newline_types lx) (ignore_types lx) lc = Yield t lc'
                    \<or> lex_step e lx stream (newline_types lx) (ignore_types lx) lc = Ignored lc')"
    then have le: "char_pos lc \<le> length stream" by simp
    from h show "char_pos lc < char_pos lc'"
    proof (elim conjE disjE)
      assume y: "lex_step e lx stream (newline_types lx) (ignore_types lx) lc = Yield t lc'"
      from Yield_progress [OF y assms(2) le] show ?thesis by (cases "tvalue t") auto
    next
      assume i: "lex_step e lx stream (newline_types lx) (ignore_types lx) lc = Ignored lc'"
      from Ignored_progress [OF i assms(2) le] show ?thesis by simp
    qed
  qed
  from a b c show ?thesis by blast
qed

theorem progress_and_termination_witness:
  "Lexer py_re [IDENT 0, IF 0] [] = Some (Inr kw_lexer) \<and> no_empty_match py_re kw_lexer ''ifx''
   \<and> (\<exists>ts out. Lexer_lex py_re kw_lexer ''ifx'' = Some (ts, out)
               \<and> (out = Done \<or> (\<exists>u. out = Raised u))
               \<and> (\<forall>t\<in>set ts. 1 \<le> length (tvalue t))
               \<and> sorted_wrt starts_after ts)"
  using progress_and_termination [OF kw_lexer_built kw_lexer_progress] kw_lexer_built kw_lexer_progress
  by blast

lemma Lex_lex_Raise:
  "lex_step e lx stream nl ig lc = Raise u \<Longrightarrow> Lex_lex e nxt hist lx stream nl ig lc = Some (hist, Raised u)"
  by (subst Lex_lex.simps) simp

lemma Lex_lex_Stop:
  "lex_step e lx stream nl ig lc = Stop \<Longrightarrow> Lex_lex e nxt hist lx stream nl ig lc = Some (hist, Done)"
  by (subst Lex_lex.simps) simp

lemma Lex_lex_Yield:
  "lex_step e lx stream nl ig lc = Yield t lc' \<Longrightarrow> nxt (hist @ [t]) = Some lx'
     \<Longrightarrow> Lex_lex e nxt hist lx stream nl ig lc = Lex_lex e nxt (hist @ [t]) lx' stream nl ig lc'"
  by (subst Lex_lex.simps) simp

lemma Lex_lex_Ignored:
  "lex_step e lx stream nl ig lc = Ignored lc'
     \<Longrightarrow> Lex_lex e nxt hist lx stream nl ig lc = Lex_lex e nxt hist lx stream nl ig lc'"
  by (subst Lex_lex.simps) simp

lemma Lexer_empty:
  "Lexer e [] [] = Some (Inr \<lparr>ignore = [], newline_types = [], ignore_types = [], callback = [],
                               tokens = [], mres = []\<rparr>)"
proof -
  have "build_mres e [] False = Some (Inr [])"
    unfolding build_mres_def build_mres_from_def by (subst build_mres_loop.simps) simp
  then show ?thesis
    by (simp add: Lexer_def sort_tokens_def create_unless_def)
qed

lemma lex_step_no_mres:
  "lex_step e \<lparr>ignore = [], newline_types = [], ignore_types = [], callback = [],
               tokens = [], mres = []\<rparr> stream [] [] LineCounter
     = (if stream \<noteq> [] then Raise (UnexpectedInput stream 0 1 0) else Stop)"
  by (simp add: lex_step_def LineCounter_def)

lemma tokenize_empty:
  "tokenize e [] [] stream
     = Some (Inr ([], if stream \<noteq> [] then Raised (UnexpectedInput stream 0 1 0) else Done))"
  by (simp add: tokenize_def Lexer_empty Lexer_lex_def lex_step_no_mres Lex_lex_Raise Lex_lex_Stop)

text \<open>
  C6. A round of the loop raises the lexical error exactly when no compiled pattern of the
  active Lexer matches at the current offset and the offset is before the end of the
  stream; the error carries the current line and column and the offending character, and
  the session ends with it, the tokens delivered so far staying delivered. Against
  \<open>IDENT = [a-z]+\<close> alone the input \<open>1+2\<close> is an error at offset 0, line 1, column 0; with
  no token at all a non-empty input is an error at once and the empty input gives no
  token.
\<close>

theorem lexical_error_iff_no_match_before_end:
  "((\<exists>u. lex_step e lx stream nl ig lc = Raise u)
      = (first_match e (mres lx) stream (char_pos lc) = None \<and> char_pos lc < length stream))
   \<and> (\<forall>u. lex_step e lx stream nl ig lc = Raise u
          \<longrightarrow> err_line u = cur_line lc \<and> err_column u = cur_column lc
              \<and> offending u = stream ! char_pos lc
              \<and> Lex_lex e nxt hist lx stream nl ig lc = Some (hist, Raised u))
   \<and> tokenize py_re [IDENT 0] [] ''1+2'' = Some (Inr ([], Raised (UnexpectedInput ''1+2'' 0 1 0)))
   \<and> (stream \<noteq> [] \<longrightarrow> tokenize e [] [] stream = Some (Inr ([], Raised (UnexpectedInput stream 0 1 0))))
   \<and> tokenize e [] [] [] = Some (Inr ([], Done))"
proof -
  have a: "(\<exists>u. lex_step e lx stream nl ig lc = Raise u)
      = (first_match e (mres lx) stream (char_pos lc) = None \<and> char_pos lc < length stream)"
    by (simp add: lex_step_Raise_iff)
  have b: "\<forall>u. lex_step e lx stream nl ig lc = Raise u
          \<longrightarrow> err_line u = cur_line lc \<and> err_column u = cur_column lc
              \<and> offending u = stream ! char_pos lc
              \<and> Lex_lex e nxt hist lx stream nl ig lc = Some (hist, Raised u)"
    by (auto simp: lex_step_Raise_iff UnexpectedInput_def intro: Lex_lex_Raise)
  have c: "tokenize py_re [IDENT 0] [] ''1+2'' = Some (Inr ([], Raised (UnexpectedInput ''1+2'' 0 1 0)))"
    by code_simp
  from a b c show ?thesis by (simp add: tokenize_empty)
qed

lemma ident_lexer_step:
  "first_match py_re (mres kw_lexer) ''1+2'' (char_pos LineCounter) = None
   \<and> char_pos LineCounter < length ''1+2''"
  by code_simp

theorem lexical_error_iff_no_match_before_end_witness:
  "first_match py_re (mres kw_lexer) ''1+2'' (char_pos LineCounter) = None
   \<and> char_pos LineCounter < length ''1+2''
   \<and> (\<exists>u. lex_step py_re kw_lexer ''1+2'' [] [] LineCounter = Raise u)
   \<and> ''1+2'' \<noteq> []
   \<and> tokenize py_re [] [] ''1+2'' = Some (Inr ([], Raised (UnexpectedInput ''1+2'' 0 1 0)))"
  using lexical_error_iff_no_match_before_end [of py_re kw_lexer "''1+2''" "[]" "[]" LineCounter]
    ident_lexer_step
  by simp

subsection \<open>The contextual lexer\<close>

lemma Lex_lex_extends:
  assumes "Lex_lex e nxt hist lx stream nl ig lc = Some y"
  shows "\<exists>rest. fst y = hist @ rest"
proof (rule Lex_lex.raw_induct
         [where P = "\<lambda>e nxt hist lx stream nl ig lc y. \<exists>rest. fst y = hist @ rest", OF _ assms])
  fix loop :: "engine \<Rightarrow> (token list \<Rightarrow> lexer option) \<Rightarrow> token list \<Rightarrow> lexer \<Rightarrow> string
                 \<Rightarrow> string list \<Rightarrow> string list \<Rightarrow> line_counter \<Rightarrow> (token list \<times> outcome) option"
  fix e nxt hist lx stream nl ig lc y
  assume IH: "\<And>e nxt hist lx stream nl ig lc y.
                loop e nxt hist lx stream nl ig lc = Some y \<Longrightarrow> \<exists>rest. fst y = hist @ rest"
  assume body:
    "(case lex_step e lx stream nl ig lc of
        Yield t lc' \<Rightarrow>
          (case nxt (hist @ [t]) of
             None \<Rightarrow> Some (hist @ [t], RaisedKeyError)
           | Some lx' \<Rightarrow> loop e nxt (hist @ [t]) lx' stream nl ig lc')
      | Ignored lc' \<Rightarrow> loop e nxt hist lx stream nl ig lc'
      | Raise u \<Rightarrow> Some (hist, Raised u)
      | Stop \<Rightarrow> Some (hist, Done)) = Some y"
  show "\<exists>rest. fst y = hist @ rest"
  proof (cases "lex_step e lx stream nl ig lc")
    case (Yield t lc')
    show ?thesis
    proof (cases "nxt (hist @ [t])")
      case None
      with Yield body show ?thesis by auto
    next
      case (Some lx')
      with Yield body have "loop e nxt (hist @ [t]) lx' stream nl ig lc' = Some y" by simp
      from IH [OF this] show ?thesis by auto
    qed
  next
    case (Ignored lc')
    with body have "loop e nxt hist lx stream nl ig lc' = Some y" by simp
    from IH [OF this] show ?thesis .
  next
    case (Raise u)
    with body show ?thesis by auto
  next
    case Stop
    with body show ?thesis by auto
  qed
qed

text \<open>
  C8. In a session of the ContextualLexer, when a round yields a token \<open>t\<close> (matched by the
  Lexer active in that round), the next match is attempted with the Lexer of the state
  the consumer has set on receiving \<open>t\<close>; the tokens already delivered stay as they are.
  With \<open>S1\<close> accepting \<open>A\<close> and \<open>S2\<close> accepting \<open>B\<close>: the input \<open>b\<close> fails in \<open>S1\<close> and
  succeeds in \<open>S2\<close>; on \<open>ab\<close>, staying in \<open>S1\<close> fails at the \<open>b\<close>, and setting \<open>S2\<close> after the
  first token succeeds.
\<close>

theorem state_change_applies_to_next_match:
  "(lex_step e lx stream nl ig lc = Yield t lc'
      \<and> map_of (lexers cl) (parser_state (hist @ [t])) = Some lx'
      \<longrightarrow> Lex_lex e (\<lambda>h. map_of (lexers cl) (parser_state h)) hist lx stream nl ig lc
            = Lex_lex e (\<lambda>h. map_of (lexers cl) (parser_state h)) (hist @ [t]) lx' stream nl ig lc')
   \<and> (Lex_lex e (\<lambda>h. map_of (lexers cl) (parser_state h)) hist lx stream nl ig lc = Some (ts, out)
        \<longrightarrow> (\<exists>rest. ts = hist @ rest))
   \<and> ctx_tokenize py_re (\<lambda>n. True) [tok_a, tok_b] ctx_states [] [] (stay S1) ''b''
       = Some (Inr ([], Raised (UnexpectedInput ''b'' 0 1 0)))
   \<and> ctx_tokenize py_re (\<lambda>n. True) [tok_a, tok_b] ctx_states [] [] (stay S2) ''b''
       = Some (Inr ([Token ''B'' ''b'' (Some 0) (Some 1) (Some 0)], Done))
   \<and> ctx_tokenize py_re (\<lambda>n. True) [tok_a, tok_b] ctx_states [] [] (stay S1) ''ab''
       = Some (Inr ([Token ''A'' ''a'' (Some 0) (Some 1) (Some 0)],
                    Raised (UnexpectedInput ''ab'' 1 1 1)))
   \<and> ctx_tokenize py_re (\<lambda>n. True) [tok_a, tok_b] ctx_states [] [] switch_after_first ''ab''
       = Some (Inr ([Token ''A'' ''a'' (Some 0) (Some 1) (Some 0),
                     Token ''B'' ''b'' (Some 1) (Some 1) (Some 1)], Done))"
proof -
  have a: "lex_step e lx stream nl ig lc = Yield t lc'
      \<and> map_of (lexers cl) (parser_state (hist @ [t])) = Some lx'
      \<longrightarrow> Lex_lex e (\<lambda>h. map_of (lexers cl) (parser_state h)) hist lx stream nl ig lc
            = Lex_lex e (\<lambda>h. map_of (lexers cl) (parser_state h)) (hist @ [t]) lx' stream nl ig lc'"
    by (auto intro: Lex_lex_Yield)
  have b: "Lex_lex e (\<lambda>h. map_of (lexers cl) (parser_state h)) hist lx stream nl ig lc = Some (ts, out)
        \<longrightarrow> (\<exists>rest. ts = hist @ rest)"
    by (auto dest: Lex_lex_extends)
  have c: "ctx_tokenize py_re (\<lambda>n. True) [tok_a, tok_b] ctx_states [] [] (stay S1) ''b''
       = Some (Inr ([], Raised (UnexpectedInput ''b'' 0 1 0)))"
    by code_simp
  have d: "ctx_tokenize py_re (\<lambda>n. True) [tok_a, tok_b] ctx_states [] [] (stay S2) ''b''
       = Some (Inr ([Token ''B'' ''b'' (Some 0) (Some 1) (Some 0)], Done))"
    by code_simp
  have f: "ctx_tokenize py_re (\<lambda>n. True) [tok_a, tok_b] ctx_states [] [] (stay S1) ''ab''
       = Some (Inr ([Token ''A'' ''a'' (Some 0) (Some 1) (Some 0)],
                    Raised (UnexpectedInput ''ab'' 1 1 1)))"
    by code_simp
  have g: "ctx_tokenize py_re (\<lambda>n. True) [tok_a, tok_b] ctx_states [] [] switch_after_first ''ab''
       = Some (Inr ([Token ''A'' ''a'' (Some 0) (Some 1) (Some 0),
                     Token ''B'' ''b'' (Some 1) (Some 1) (Some 1)], Done))"
    by code_simp
  from a b c d f g show ?thesis by blast
qed

lemma ctx_lexer_built:
  "ContextualLexer py_re (\<lambda>n. True) [tok_a, tok_b] ctx_states [] [] = Some (Inr ctx_lexer)"
  by code_simp

lemma ctx_first_step:
  "lex_step py_re lexer_of_A ''ab'' [] [] LineCounter
     = Yield (Token ''A'' ''a'' (Some 0) (Some 1) (Some 0))
         \<lparr>char_pos = 1, cur_line = 1, cur_column = 1, line_start_pos = 0\<rparr>
   \<and> map_of (lexers ctx_lexer) (switch_after_first ([] @ [Token ''A'' ''a'' (Some 0) (Some 1) (Some 0)]))
       = Some lexer_of_B"
  by code_simp

theorem state_change_applies_to_next_match_witness:
  "ContextualLexer py_re (\<lambda>n. True) [tok_a, tok_b] ctx_states [] [] = Some (Inr ctx_lexer)
   \<and> lex_step py_re lexer_of_A ''ab'' [] [] LineCounter
       = Yield (Token ''A'' ''a'' (Some 0) (Some 1) (Some 0))
           \<lparr>char_pos = 1, cur_line = 1, cur_column = 1, line_start_pos = 0\<rparr>
   \<and> map_of (lexers ctx_lexer) (switch_after_first ([] @ [Token ''A'' ''a'' (Some 0) (Some 1) (Some 0)]))
       = Some lexer_of_B
   \<and> Lex_lex py_re (\<lambda>h. map_of (lexers ctx_lexer) (switch_after_first h)) [] lexer_of_A ''ab'' [] []
         LineCounter
       = Lex_lex py_re (\<lambda>h. map_of (lexers ctx_lexer) (switch_after_first h))
           ([] @ [Token ''A'' ''a'' (Some 0) (Some 1) (Some 0)]) lexer_of_B ''ab'' [] []
           \<lparr>char_pos = 1, cur_line = 1, cur_column = 1, line_start_pos = 0\<rparr>"
  using state_change_applies_to_next_match
          [of py_re lexer_of_A "''ab''" "[]" "[]" LineCounter
              "Token ''A'' ''a'' (Some 0) (Some 1) (Some 0)"
              "\<lparr>char_pos = 1, cur_line = 1, cur_column = 1, line_start_pos = 0\<rparr>"
              ctx_lexer switch_after_first "[]" lexer_of_B]
    ctx_lexer_built ctx_first_step
  by blast

subsection \<open>Which alternative wins\<close>

lemma mre_match_append:
  "mre_match e (xs @ ys) stream pos
     = (case mre_match e xs stream pos of Some r \<Rightarrow> Some r | None \<Rightarrow> mre_match e ys stream pos)"
  by (induction xs) (auto split: option.splits)

lemma first_match_concat: "first_match e ms stream pos = mre_match e (concat ms) stream pos"
  by (induction ms) (auto simp: mre_match_append split: option.splits)





subsection \<open>The tokens of a constructed Lexer\<close>

lemma Lexer_create_unless:
  assumes "Lexer e toks ign = Some (Inr lx)"
  shows "create_unless e (sort_tokens toks) = Some (Inr (tokens lx, callback lx))"
  using assms
  by (auto simp: Lexer_def split: option.splits if_splits sum.splits prod.splits)











subsection \<open>The callbacks of a constructed Lexer\<close>

lemma build_mres_loop_Nil: "build_mres_loop e [] n mw acc = Some (Inr acc)"
  by (subst build_mres_loop.simps) simp

lemma count_groups_uniform:
  "\<forall>t\<in>set ts. re_groups e (to_regexp (pattern t) @ postfix mw) = g
     \<Longrightarrow> count_groups e (alternatives mw ts) = length ts * Suc g"
  by (induction ts) (auto simp: count_groups_def alternatives_def)

lemma alternatives_take_drop:
  "alternatives mw (take n ts) @ alternatives mw (drop n ts) = alternatives mw ts"
  by (simp add: alternatives_def flip: map_append)

text \<open>
  When all the sources have the same number of capture groups, a batch that follows a
  compiled batch is no larger than it and compiles too: nothing is lost.
\<close>

lemma build_mres_loop_uniform:
  assumes "build_mres_loop e ts n mw acc = Some y"
  shows "(\<forall>t\<in>set ts. re_groups e (to_regexp (pattern t) @ postfix mw) = g)
           \<and> (acc = [] \<or> ts = [] \<or> n * Suc g \<le> re_maxgroups e)
         \<longrightarrow> (\<forall>ms. y = Inr ms \<longrightarrow> concat ms = concat acc @ alternatives mw ts)"
proof (rule build_mres_loop.raw_induct
         [where P = "\<lambda>e ts n mw acc y.
              (\<forall>t\<in>set ts. re_groups e (to_regexp (pattern t) @ postfix mw) = g)
                \<and> (acc = [] \<or> ts = [] \<or> n * Suc g \<le> re_maxgroups e)
              \<longrightarrow> (\<forall>ms. y = Inr ms \<longrightarrow> concat ms = concat acc @ alternatives mw ts)",
          OF _ assms])
  fix loop :: "engine \<Rightarrow> tokendef list \<Rightarrow> nat \<Rightarrow> bool \<Rightarrow> mre list \<Rightarrow> (error + mre list) option"
  fix e ts n mw acc y
  assume IH: "\<And>e ts n mw acc y. loop e ts n mw acc = Some y \<Longrightarrow>
                (\<forall>t\<in>set ts. re_groups e (to_regexp (pattern t) @ postfix mw) = g)
                  \<and> (acc = [] \<or> ts = [] \<or> n * Suc g \<le> re_maxgroups e)
                \<longrightarrow> (\<forall>ms. y = Inr ms \<longrightarrow> concat ms = concat acc @ alternatives mw ts)"
  assume body:
    "(if ts = [] then Some (Inr acc)
      else case re_compile e (alternatives mw (take n ts)) of
             Compiled mre \<Rightarrow> loop e (drop n ts) n mw (acc @ [mre])
           | CompileAssertionError \<Rightarrow> loop e ts (n div 2) mw []
           | CompileReError \<Rightarrow> Some (Inl ReError)) = Some y"
  show "(\<forall>t\<in>set ts. re_groups e (to_regexp (pattern t) @ postfix mw) = g)
           \<and> (acc = [] \<or> ts = [] \<or> n * Suc g \<le> re_maxgroups e)
         \<longrightarrow> (\<forall>ms. y = Inr ms \<longrightarrow> concat ms = concat acc @ alternatives mw ts)"
  proof (intro impI allI, elim conjE)
    fix ms
    assume uni: "\<forall>t\<in>set ts. re_groups e (to_regexp (pattern t) @ postfix mw) = g"
      and inv: "acc = [] \<or> ts = [] \<or> n * Suc g \<le> re_maxgroups e"
      and y: "y = Inr ms"
    show "concat ms = concat acc @ alternatives mw ts"
    proof (cases "ts = []")
      case True
      with body y show ?thesis by (simp add: alternatives_def)
    next
      case False
      have cnt: "count_groups e (alternatives mw (take n ts)) = length (take n ts) * Suc g"
        using uni by (intro count_groups_uniform) (auto dest: in_set_takeD)
      show ?thesis
      proof (cases "re_compile e (alternatives mw (take n ts))")
        case (Compiled mre)
        then have mre: "mre = alternatives mw (take n ts)"
          by (auto simp: re_compile_def split: if_splits)
        from Compiled have fit: "length (take n ts) * Suc g \<le> re_maxgroups e"
          using cnt by (auto simp: re_compile_def split: if_splits)
        from body False Compiled have r: "loop e (drop n ts) n mw (acc @ [mre]) = Some y" by simp
        have "drop n ts = [] \<or> n * Suc g \<le> re_maxgroups e"
        proof (cases "n \<le> length ts")
          case True
          then have "length (take n ts) = n" by simp
          with fit show ?thesis by simp
        next
          case False
          then show ?thesis by simp
        qed
        moreover have "\<forall>t\<in>set (drop n ts). re_groups e (to_regexp (pattern t) @ postfix mw) = g"
          using uni by (auto dest: in_set_dropD)
        ultimately have "concat ms = concat (acc @ [mre]) @ alternatives mw (drop n ts)"
          using IH [OF r] y by blast
        then show ?thesis by (simp add: mre alternatives_take_drop)
      next
        case CompileAssertionError
        then have "re_maxgroups e < length (take n ts) * Suc g"
          using cnt by (auto simp: re_compile_def split: if_splits)
        moreover have "length (take n ts) * Suc g \<le> n * Suc g"
          by (rule mult_le_mono1) simp
        ultimately have "\<not> n * Suc g \<le> re_maxgroups e" by linarith
        with inv False have acc: "acc = []" by simp
        from body False CompileAssertionError have "loop e ts (n div 2) mw [] = Some y" by simp
        from IH [OF this] uni y acc show ?thesis by simp
      next
        case CompileReError
        with body False y show ?thesis by simp
      qed
    qed
  qed
qed

lemma build_mres_uniform:
  assumes "\<forall>t\<in>set ts. re_groups e (to_regexp (pattern t) @ postfix mw) = g"
    and "build_mres e ts mw = Some (Inr ms)"
  shows "concat ms = alternatives mw ts"
  using build_mres_loop_uniform [of e ts "length ts" mw "[]" "Inr ms" g] assms
  by (simp add: build_mres_def build_mres_from_def)

lemma create_callbacks_lookup:
  "create_callbacks e strtoks retoks cb0 = Some (Inr cb)
     \<Longrightarrow> \<forall>r'\<in>set retoks. name r' = name r \<longrightarrow> r' = r
     \<Longrightarrow> unless_of e strtoks r \<noteq> []
     \<Longrightarrow> r \<in> set retoks
          \<or> (\<exists>ms0. map_of cb0 (name r) = Some ms0
                \<and> build_mres e (unless_of e strtoks r) True = Some (Inr ms0))
     \<Longrightarrow> \<exists>ms. map_of cb (name r) = Some ms
              \<and> build_mres e (unless_of e strtoks r) True = Some (Inr ms)"
proof (induction retoks arbitrary: cb0)
  case Nil
  then show ?case by simp
next
  case (Cons x xs)
  have u: "\<forall>r'\<in>set xs. name r' = name r \<longrightarrow> r' = r" using Cons.prems(2) by simp
  show ?case
  proof (cases "unless_of e strtoks x = []")
    case True
    with Cons.prems(3) have "x \<noteq> r" by auto
    with Cons.prems(4) have
      d: "r \<in> set xs \<or> (\<exists>ms0. map_of cb0 (name r) = Some ms0
                \<and> build_mres e (unless_of e strtoks r) True = Some (Inr ms0))"
      by auto
    from Cons.prems(1) True have "create_callbacks e strtoks xs cb0 = Some (Inr cb)" by simp
    from Cons.IH [OF this u Cons.prems(3) d] show ?thesis .
  next
    case False
    with Cons.prems(1) obtain m where
      b: "build_mres e (unless_of e strtoks x) True = Some (Inr m)"
      and c: "create_callbacks e strtoks xs ((name x, m) # cb0) = Some (Inr cb)"
      by (auto split: option.splits sum.splits)
    have d: "r \<in> set xs \<or> (\<exists>ms0. map_of ((name x, m) # cb0) (name r) = Some ms0
                \<and> build_mres e (unless_of e strtoks r) True = Some (Inr ms0))"
    proof (cases "name x = name r")
      case True
      with Cons.prems(2) have "x = r" by simp
      with b show ?thesis by simp
    next
      case False
      then have "x \<noteq> r" by auto
      with Cons.prems(4) False show ?thesis by auto
    qed
    from Cons.IH [OF c u Cons.prems(3) d] show ?thesis .
  qed
qed

lemma create_unless_callbacks:
  "create_unless e ts = Some (Inr (ts', cb))
     \<Longrightarrow> create_callbacks e (filter (\<lambda>t. pclass (pattern t) = PatternStr) ts)
           (filter (\<lambda>t. pclass (pattern t) = PatternRE) ts) [] = Some (Inr cb)"
  by (auto simp: create_unless_def Let_def split: option.splits sum.splits)

lemma unless_probe:
  "s \<in> set U
     \<Longrightarrow> \<forall>s'\<in>set U. (re_match e (to_regexp (pattern s') @ ''$'') v 0 \<noteq> None) = (s' = s)
     \<Longrightarrow> \<exists>v'. mre_match e (alternatives True U) v 0 = Some (v', name s)"
proof (induction U)
  case Nil
  then show ?case by simp
next
  case (Cons x xs)
  show ?case
  proof (cases "x = s")
    case True
    with Cons.prems(2) obtain k where "re_match e (to_regexp (pattern s) @ ''$'') v 0 = Some k"
      by auto
    with True show ?thesis by (simp add: alternatives_def postfix_def)
  next
    case False
    with Cons.prems have "re_match e (to_regexp (pattern x) @ ''$'') v 0 = None" "s \<in> set xs"
      "\<forall>s'\<in>set xs. (re_match e (to_regexp (pattern s') @ ''$'') v 0 \<noteq> None) = (s' = s)"
      by auto
    with Cons.IH show ?thesis by (simp add: alternatives_def postfix_def)
  qed
qed

text \<open>
  Where the whole-match probe of a literal token matches the text only if the token is the
  literal whose value the text is, and the probes have no capture group, the callback
  gives that literal's type.
\<close>

lemma exact_probes_reclassify:
  assumes "Lexer e toks ign = Some (Inr lx)"
    and "r \<in> set toks" and "pclass (pattern r) = PatternRE"
    and "s \<in> set toks" and "pclass (pattern s) = PatternStr"
    and "matches_whole e r s"
    and "\<forall>r'\<in>set toks. pclass (pattern r') = PatternRE \<longrightarrow> name r' = name r \<longrightarrow> r' = r"
    and "\<forall>s'\<in>set toks. pclass (pattern s') = PatternStr \<longrightarrow>
           (re_match e (to_regexp (pattern s') @ ''$'') (pvalue (pattern s)) 0 \<noteq> None) = (s' = s)"
    and "\<forall>s'\<in>set toks. pclass (pattern s') = PatternStr \<longrightarrow>
           re_groups e (to_regexp (pattern s') @ ''$'') = 0"
    and "first_match e (mres lx) stream (char_pos lc) = Some (pvalue (pattern s), name r)"
    and "name r \<notin> set ig"
  shows "lex_step e lx stream nl ig lc
           = Yield (Token (name s) (pvalue (pattern s)) (Some (char_pos lc)) (Some (cur_line lc))
                      (Some (cur_column lc)))
               (feed lc (pvalue (pattern s)) (name r \<in> set nl))"
proof -
  let ?lit = "\<lambda>t. pclass (pattern t) = PatternStr"
  let ?st = "filter ?lit (sort_tokens toks)"
  let ?re = "filter (\<lambda>t. pclass (pattern t) = PatternRE) (sort_tokens toks)"
  let ?U = "unless_of e ?st r"
  have sU: "s \<in> set ?U"
    using assms(4,5,6) by (simp add: unless_of_def sort_tokens_def)
  then have ne: "?U \<noteq> []" by auto
  have rre: "r \<in> set ?re" using assms(2,3) by (simp add: sort_tokens_def)
  have uniq: "\<forall>r'\<in>set ?re. name r' = name r \<longrightarrow> r' = r"
    using assms(7) by (simp add: sort_tokens_def)
  from create_unless_callbacks [OF Lexer_create_unless [OF assms(1)]]
  have "create_callbacks e ?st ?re [] = Some (Inr (callback lx))" .
  from create_callbacks_lookup [OF this uniq ne] rre obtain ms where
    look: "map_of (callback lx) (name r) = Some ms"
    and built: "build_mres e ?U True = Some (Inr ms)"
    by blast
  have "\<forall>t\<in>set ?U. re_groups e (to_regexp (pattern t) @ postfix True) = 0"
    using assms(9) by (auto simp: unless_of_def sort_tokens_def postfix_def)
  from build_mres_uniform [OF this built] have ms: "concat ms = alternatives True ?U" .
  have "\<forall>s'\<in>set ?U. (re_match e (to_regexp (pattern s') @ ''$'') (pvalue (pattern s)) 0 \<noteq> None)
          = (s' = s)"
    using assms(8) by (auto simp: unless_of_def sort_tokens_def)
  from unless_probe [OF sU this] obtain v' where
    "mre_match e (alternatives True ?U) (pvalue (pattern s)) 0 = Some (v', name s)" by blast
  then have cb: "\<And>t. tvalue t = pvalue (pattern s) \<Longrightarrow> unless_callback e ms t = t\<lparr>ttype := name s\<rparr>"
    by (simp add: unless_callback_def first_match_concat ms)
  show ?thesis
    using assms(10,11) look by (simp add: lex_step_def Let_def Token_def cb)
qed

text \<open>
  C2. With \<open>IDENT = [a-z]+\<close> and \<open>IF = if\<close>, both of priority 0, the input \<open>if\<close> gives one
  token of type \<open>IF\<close> and the input \<open>ifx\<close> one token of type \<open>IDENT\<close> and value \<open>ifx\<close>. The
  general claim, that a match whose text is the value of a literal the regexp accepts in
  whole gets that literal's type, fails in the code: the probe of a literal ends in
  \<^verbatim>\<open>$\<close>, which also holds before a final newline. With \<open>WS\<close> the whitespace
  regexp, \<open>NL1\<close> one newline (priority 10) and \<open>NL2\<close> two newlines (priority 5), the text of
  two newlines is delivered as \<open>NL1\<close>.
\<close>

theorem literal_probe_holds_before_final_newline:
  "matches_whole py_re WS NL2
   \<and> pvalue (pattern NL2) = [newline_char, newline_char]
   \<and> pvalue (pattern NL1) = [newline_char]
   \<and> re_match py_re (to_regexp (pattern NL1) @ ''$'') [newline_char, newline_char] 0 = Some 1
   \<and> tokenize py_re [WS, NL1, NL2] [] [newline_char, newline_char]
       = Some (Inr ([Token ''NL1'' [newline_char, newline_char] (Some 0) (Some 1) (Some 0)], Done))
   \<and> tokenize py_re [IDENT 0, IF 0] [] ''if''
       = Some (Inr ([Token ''IF'' ''if'' (Some 0) (Some 1) (Some 0)], Done))
   \<and> tokenize py_re [IDENT 0, IF 0] [] ''ifx''
       = Some (Inr ([Token ''IDENT'' ''ifx'' (Some 0) (Some 1) (Some 0)], Done))"
  by code_simp

end
